theory Spec2Isabelle
  imports Main "HOL-Library.AList"
begin

section \<open>The route tree and its compilation into matchers (router.js, map)\<close>

text \<open>
  A route node as the route DSLs hand it to \<open>map\<close>: \<open>{name, path, options, routes}\<close>.
  Of the options bag only the key \<open>abstract\<close> is read by the router.
\<close>

record options =
  abstract :: bool

datatype route = Route (r_name: string) (r_path: string) (r_options: options) (r_routes: "route list")

text \<open>A matcher \<open>{routes, name, path}\<close>: one flattened branch of the tree.\<close>

record matcher =
  m_routes :: "route list"
  m_name :: string
  m_path :: string

text \<open>
  JavaScript objects used as dictionaries (\<open>dupes\<close>, \<open>abstracts\<close>, params, query) are
  association lists from keys to string values, for which \<open>===\<close> is equality. \<open>obj[key]\<close>
  is \<open>map_of obj key\<close>, with \<open>None\<close> for \<open>undefined\<close>; \<open>obj[key] = v\<close> is \<open>AList.update\<close>,
  which overwrites in place or appends, so that \<open>Object.keys\<close> (the first components, in
  order) lists the keys in the order of their first insertion.
\<close>

type_synonym obj = "(string \<times> string) list"

definition keys :: "obj \<Rightarrow> string list" where
  "keys ob = map fst ob"

text \<open>Truthiness of \<open>obj[key]\<close>: \<open>undefined\<close> and the empty string are falsy.\<close>

definition truthy :: "string option \<Rightarrow> bool" where
  "truthy v = (case v of None \<Rightarrow> False | Some s \<Rightarrow> s \<noteq> [])"

text \<open>\<open>s.replace(/\/$/, '')\<close>: one slash at the very end of the string is removed.\<close>

definition strip_trailing_slash :: "string \<Rightarrow> string" where
  "strip_trailing_slash s = (if s \<noteq> [] \<and> last s = CHR ''/'' then butlast s else s)"

text \<open>\<open>s[0] === '/'\<close>; on the empty string \<open>s[0]\<close> is \<open>undefined\<close>.\<close>

definition leading_slash :: "string \<Rightarrow> bool" where
  "leading_slash s = (case s of [] \<Rightarrow> False | c # _ \<Rightarrow> c = CHR ''/'')"

text \<open>\<open>xs.reduce(f, init)\<close>.\<close>

fun reduce :: "('b \<Rightarrow> 'a \<Rightarrow> 'b) \<Rightarrow> 'a list \<Rightarrow> 'b \<Rightarrow> 'b" where
  "reduce f [] memo = memo"
| "reduce f (r # rs) memo = reduce f rs (f memo r)"

text \<open>Lines 64-72 of \<open>map\<close>: the path of a branch.\<close>

definition branch_path :: "route list \<Rightarrow> string" where
  "branch_path routes =
     (let path = reduce (\<lambda>memo r.
                   strip_trailing_slash
                     (if leading_slash (r_path r) then r_path r else memo @ ''/'' @ r_path r))
                 routes ''''
      in if path = '''' then ''/'' else path)"



text \<open>
  Errors thrown by \<open>map\<close>: \<open>new Error(message)\<close>, and the \<open>TypeError\<close> of reading a
  property of \<open>undefined\<close>.
\<close>

datatype error = Error string | TypeError

text \<open>The three accumulators of \<open>map\<close>.\<close>

record map_state =
  matchers :: "matcher list"
  dupes :: obj
  abstracts :: obj

text \<open>
  The callback passed to \<open>eachBranch\<close> (lines 62-94). The matcher is pushed before the
  duplicate check; when the check throws, the error is the result. \<open>dupes[path]\<close> is read
  for the message only where it is truthy. On an empty branch, which the traversal never
  passes, \<open>lastRoute\<close> is \<open>undefined\<close> and reading its options is a \<open>TypeError\<close>.
\<close>

definition register_branch :: "route list \<Rightarrow> map_state \<Rightarrow> error + map_state" where
  "register_branch routes s =
     (let path = branch_path routes in
      case routes of
        [] \<Rightarrow> Inl TypeError
      | _ \<Rightarrow>
          let lastRoute = last routes in
          if abstract (r_options lastRoute)
          then Inr (s\<lparr>abstracts := AList.update path (r_name lastRoute) (abstracts s)\<rparr>)
          else
            let s1 = s\<lparr>matchers := matchers s @
                         [\<lparr>m_routes = routes, m_name = r_name lastRoute, m_path = path\<rparr>]\<rparr>
            in if truthy (map_of (dupes s1) path)
               then Inl (Error (''Routes '' @ the (map_of (dupes s1) path) @ '' and '' @
                                r_name lastRoute @ '' have the same url path '' @ [CHR 0x27] @
                                path @ [CHR 0x27]))
               else Inr (s1\<lparr>dupes := AList.update path (r_name lastRoute) (dupes s1)\<rparr>))"

text \<open>
  \<open>eachBranch(node, memo, fn)\<close> (lines 115-123), on the list \<open>node.routes\<close>: depth first,
  the callback on every node's branch before its children. A throw of the callback ends
  the traversal.
\<close>

fun eachBranch :: "route list \<Rightarrow> route list \<Rightarrow> (route list \<Rightarrow> 's \<Rightarrow> error + 's) \<Rightarrow> 's \<Rightarrow> error + 's" where
  "eachBranch [] memo fn s = Inr s"
| "eachBranch (Route n p opts rs # rest) memo fn s =
     (case fn (memo @ [Route n p opts rs]) s of
        Inl e \<Rightarrow> Inl e
      | Inr s1 \<Rightarrow>
          (case (if rs \<noteq> [] then eachBranch rs (memo @ [Route n p opts rs]) fn s1 else Inr s1) of
             Inl e \<Rightarrow> Inl e
           | Inr s2 \<Rightarrow> eachBranch rest memo fn s2))"

text \<open>\<open>matchers.some(m => m.path === path)\<close> with the assignment of the hit (lines 101-106).\<close>

fun some_with_path :: "string \<Rightarrow> matcher list \<Rightarrow> matcher option" where
  "some_with_path path [] = None"
| "some_with_path path (m # ms) = (if m_path m = path then Some m else some_with_path path ms)"

text \<open>
  The body of the \<open>forEach\<close> over \<open>Object.keys(abstracts)\<close> (lines 97-113). The path is
  a key of \<open>abstracts\<close>, so \<open>abstracts[path]\<close> is a name; with no matcher of the path,
  \<open>matcher\<close> is \<open>undefined\<close> and reading its routes is a \<open>TypeError\<close>.
\<close>

definition forward_index :: "obj \<Rightarrow> obj \<Rightarrow> string \<Rightarrow> matcher list \<Rightarrow> error + matcher list" where
  "forward_index dps absts path ms =
     (if \<not> truthy (map_of dps path) then Inr ms
      else case some_with_path path ms of
             None \<Rightarrow> Inl TypeError
           | Some m \<Rightarrow>
               Inr (ms @ [\<lparr>m_routes = m_routes m, m_name = the (map_of absts path), m_path = path\<rparr>]))"

fun forEach_abstract :: "obj \<Rightarrow> obj \<Rightarrow> string list \<Rightarrow> matcher list \<Rightarrow> error + matcher list" where
  "forEach_abstract dps absts [] ms = Inr ms"
| "forEach_abstract dps absts (path # paths) ms =
     (case forward_index dps absts path ms of
        Inl e \<Rightarrow> Inl e
      | Inr ms1 \<Rightarrow> forEach_abstract dps absts paths ms1)"

text \<open>
  \<open>map(routes)\<close> (lines 49-126), on the route tree that the DSL built: the matcher list
  of the router, or the error thrown.
\<close>

definition map_routes :: "route list \<Rightarrow> error + matcher list" where
  "map_routes routes =
     (case eachBranch routes [] register_branch \<lparr>matchers = [], dupes = [], abstracts = []\<rparr> of
        Inl e \<Rightarrow> Inl e
      | Inr s \<Rightarrow> forEach_abstract (dupes s) (abstracts s) (keys (abstracts s)) (matchers s))"

section \<open>Matching a path (router.js, match)\<close>

text \<open>
  The helpers that the router imports from \<open>path.js\<close> and \<open>dash.js\<close> are parameters of the
  model, typed by their contracts: \<open>extractParams(pattern, path)\<close> gives the params object
  or \<open>null\<close>; \<open>extractQuery(qs, path)\<close>, with the query codec \<open>options.qs\<close> of the router
  applied, gives the decoded query or a falsy value; \<open>isEqual\<close> compares two objects by value.
  \<open>clone\<close> is the identity on the immutable values of the model.
\<close>

record helpers =
  extractParams :: "string \<Rightarrow> string \<Rightarrow> obj option"
  extractParamNames :: "string \<Rightarrow> string list"
  withoutQuery :: "string \<Rightarrow> string"
  extractQuery :: "string \<Rightarrow> obj option"
  pick :: "obj \<Rightarrow> string list \<Rightarrow> obj"
  isEqual :: "obj \<Rightarrow> obj \<Rightarrow> bool"

text \<open>The route descriptor \<open>{name, path, params, options}\<close> of a match result.\<close>

record descriptor =
  d_name :: string
  d_path :: string
  d_params :: obj
  d_options :: options

definition descriptor :: "helpers \<Rightarrow> obj \<Rightarrow> route \<Rightarrow> descriptor" where
  "descriptor h params route =
     \<lparr>d_name = r_name route,
      d_path = r_path route,
      d_params = pick h params (extractParamNames h (r_path route)),
      d_options = r_options route\<rparr>"

record match_result =
  mr_routes :: "descriptor list"
  mr_params :: obj
  mr_pathname :: string
  mr_query :: obj

text \<open>
  The loop \<open>this.matchers.some(...)\<close> of lines 300-306 on the variables \<open>params\<close> and
  \<open>routes\<close>: \<open>params\<close> is assigned for every matcher that is tried, \<open>routes\<close> only on a
  hit, which ends the loop.
\<close>

fun some_matching ::
  "(string \<Rightarrow> string \<Rightarrow> obj option) \<Rightarrow> string \<Rightarrow> matcher list \<Rightarrow>
   obj option \<times> route list \<Rightarrow> obj option \<times> route list" where
  "some_matching ex pathWithoutQuery [] (params, routes) = (params, routes)"
| "some_matching ex pathWithoutQuery (m # rest) (params, routes) =
     (case ex (m_path m) pathWithoutQuery of
        Some ps \<Rightarrow> (Some ps, m_routes m)
      | None \<Rightarrow> some_matching ex pathWithoutQuery rest (None, routes))"

text \<open>
  Line 295, \<open>(path || '').replace(/\/$/, '') || '/'\<close>, on a string: the trailing slash is
  removed and the empty string becomes the root path.

  \<open>match(path)\<close> (lines 294-328), on the matcher list of the router. \<open>descriptor\<close> is only
  ever applied to the routes of a hit, where \<open>params\<close> is the object of that hit; with no
  hit \<open>routes\<close> is still the empty list and \<open>params || {}\<close> is the empty object.
\<close>

definition trim_path :: "string \<Rightarrow> string" where
  "trim_path path = (let p = strip_trailing_slash path in if p = '''' then ''/'' else p)"

definition match :: "helpers \<Rightarrow> matcher list \<Rightarrow> string \<Rightarrow> match_result" where
  "match h ms path0 =
     (let path = trim_path path0;
          pathWithoutQuery = withoutQuery h path;
          (params, routes) = some_matching (extractParams h) pathWithoutQuery ms (None, [])
      in \<lparr>mr_routes = (case params of
                          Some ps \<Rightarrow> map (descriptor h ps) routes
                        | None \<Rightarrow> map (descriptor h []) routes),
          mr_params = (case params of Some ps \<Rightarrow> ps | None \<Rightarrow> []),
          mr_pathname = pathWithoutQuery,
          mr_query = (case extractQuery h path of Some q \<Rightarrow> q | None \<Rightarrow> [])\<rparr>)"

section \<open>The router and its transitions\<close>

text \<open>
  The constants of \<open>constants.js\<close>, used as the message and the type tag of the structured
  errors.
\<close>

datatype error_tag = TRANSITION_CANCELLED | TRANSITION_REDIRECTED

record transition_error =
  e_message :: error_tag
  e_type :: error_tag
  e_nextPath :: "string option"

datatype rejection = Structured transition_error | MiddlewareError string

datatype tag = Pending | Cancelled | Redirected | Completed | Failed

text \<open>
  A transition object. The router and its callers share transition objects by reference
  and \<open>cancel\<close> mutates them, so they live in a store: the list \<open>transitions\<close> of the
  router below, where the reference of a transition is its position. Objects are never
  removed, and a new object takes the next free position.
\<close>

record transition =
  t_id :: nat
  t_path :: string
  t_pathname :: string
  t_params :: obj
  t_query :: obj
  t_routes :: "descriptor list"
  t_noop :: bool
  t_tag :: tag
  t_outcome :: "rejection option"
  t_invoked :: nat

text \<open>
  The committed part of \<open>this.state\<close>. The state object is \<open>{}\<close> at construction and after
  \<open>destroy\<close>, and a completed transition writes the five fields together, so they are
  present together or absent together.
\<close>

record committed =
  c_path :: string
  c_pathname :: string
  c_params :: obj
  c_query :: obj
  c_routes :: "descriptor list"

record router_state =
  committed :: "committed option"
  activeTransition :: "nat option"

text \<open>
  The router after \<open>map\<close> has run: \<open>nextId\<close>, \<open>state\<close>, \<open>middleware\<close> (by name) and
  \<open>this.matchers\<close>, with the store of the transition objects it has created.
\<close>

record router =
  nextId :: nat
  state :: router_state
  middleware :: "string list"
  this_matchers :: "matcher list"
  transitions :: "transition list"

text \<open>The constructor (lines 14-29), called with \<open>options.routes\<close>.\<close>

definition Cherrytree :: "route list \<Rightarrow> error + router" where
  "Cherrytree routes =
     (case map_routes routes of
        Inl e \<Rightarrow> Inl e
      | Inr ms \<Rightarrow>
          Inr \<lparr>nextId = 1,
               state = \<lparr>committed = None, activeTransition = None\<rparr>,
               middleware = [],
               this_matchers = ms,
               transitions = []\<rparr>)"

text \<open>\<open>use(middleware)\<close> (lines 37-41).\<close>

definition use :: "string \<Rightarrow> router \<Rightarrow> router" where
  "use m w = w\<lparr>middleware := middleware w @ [m]\<rparr>"

record transition_options =
  o_id :: nat
  o_path :: string
  o_match :: match_result
  o_noop :: bool

text \<open>
  Modelled from the spec: the transition module (\<open>transition.js\<close>) is not among the sources.
  Its constructor makes a new transition object that carries the id, the target path and
  the match data (pathname, params, query, routes) and the noop flag. A transition starts
  pending; a no-op transition settles at once without running middleware. The result is
  the reference of the new object and the router with the object in its store.
\<close>

definition transition :: "transition_options \<Rightarrow> router \<Rightarrow> nat \<times> router" where
  "transition opts w =
     (length (transitions w),
      w\<lparr>transitions := transitions w @
           [\<lparr>t_id = o_id opts,
             t_path = o_path opts,
             t_pathname = mr_pathname (o_match opts),
             t_params = mr_params (o_match opts),
             t_query = mr_query (o_match opts),
             t_routes = mr_routes (o_match opts),
             t_noop = o_noop opts,
             t_tag = (if o_noop opts then Completed else Pending),
             t_outcome = None,
             t_invoked = 0\<rparr>]\<rparr>)"

text \<open>
  Modelled from the spec: \<open>cancel(err)\<close> of the transition module. Cancelling a pending
  transition moves it to cancelled, or to redirected when the error is a redirect, and
  rejects its outcome with the structured error (a cancelled-error when none is given);
  the active-transition slot is released and the committed state is not touched.
  Terminal states are final, so cancelling a settled transition does nothing.
\<close>

definition cancel :: "nat \<Rightarrow> transition_error option \<Rightarrow> router \<Rightarrow> router" where
  "cancel r err w =
     (let t = transitions w ! r in
      if t_tag t \<noteq> Pending then w
      else
        let e = (case err of
                   None \<Rightarrow> \<lparr>e_message = TRANSITION_CANCELLED, e_type = TRANSITION_CANCELLED,
                             e_nextPath = None\<rparr>
                 | Some e \<Rightarrow> e)
        in w\<lparr>transitions := (transitions w)
                [r := t\<lparr>t_tag := (if e_type e = TRANSITION_REDIRECTED then Redirected else Cancelled),
                        t_outcome := Some (Structured e)\<rparr>],
             state := (state w)\<lparr>activeTransition :=
                (if activeTransition (state w) = Some r then None
                 else activeTransition (state w))\<rparr>\<rparr>)"

text \<open>
  Modelled from the spec: one step of the middleware chain of the transition module. A
  transition that has left the pending state invokes nothing. A pending transition
  invokes the next middleware of the chain; when that step raises, the transition fails
  with the error and the slot is released; when the chain is exhausted the transition
  completes, the committed state is overwritten with its match data and the slot is
  cleared.
\<close>

datatype step_result = Resolved | Raised string

definition callNext :: "nat \<Rightarrow> step_result \<Rightarrow> router \<Rightarrow> router" where
  "callNext r res w =
     (let t = transitions w ! r in
      if t_tag t \<noteq> Pending then w
      else if t_invoked t < length (middleware w) then
        (case res of
           Resolved \<Rightarrow>
             w\<lparr>transitions := (transitions w)[r := t\<lparr>t_invoked := Suc (t_invoked t)\<rparr>]\<rparr>
         | Raised msg \<Rightarrow>
             w\<lparr>transitions := (transitions w)
                  [r := t\<lparr>t_invoked := Suc (t_invoked t), t_tag := Failed,
                          t_outcome := Some (MiddlewareError msg)\<rparr>],
               state := (state w)\<lparr>activeTransition := None\<rparr>\<rparr>)
      else
        w\<lparr>transitions := (transitions w)[r := t\<lparr>t_tag := Completed\<rparr>],
          state := \<lparr>committed = Some \<lparr>c_path = t_path t, c_pathname = t_pathname t,
                                       c_params = t_params t, c_query = t_query t,
                                       c_routes = t_routes t\<rparr>,
                    activeTransition = None\<rparr>\<rparr>)"

text \<open>
  \<open>dispatch(path)\<close> (lines 330-381), on a string: the reference of the transition
  returned, and the router after the call. The three conditionals of the source follow
  each other as they do there; the local \<open>activeTransition\<close> keeps its value when \<open>cancel\<close>
  releases the slot.
\<close>

definition dispatch :: "helpers \<Rightarrow> string \<Rightarrow> router \<Rightarrow> nat \<times> router" where
  "dispatch h path w =
     (let match = match h (this_matchers w) path;
          query = mr_query match;
          pathname = mr_pathname match;
          active = activeTransition (state w)
      in
      if (case active of
            None \<Rightarrow> False
          | Some a \<Rightarrow> t_pathname (transitions w ! a) = pathname \<and>
                      isEqual h (t_query (transitions w ! a)) query)
      then (the active, w)
      else
        let w1 = (case active of
                    None \<Rightarrow> w
                  | Some a \<Rightarrow>
                      cancel a (Some \<lparr>e_message = TRANSITION_REDIRECTED,
                                      e_type = TRANSITION_REDIRECTED,
                                      e_nextPath = Some path\<rparr>) w)
        in
        if active = None \<and>
           (case committed (state w1) of
              None \<Rightarrow> False
            | Some c \<Rightarrow> c_pathname c = pathname \<and> isEqual h (c_query c) query)
        then transition \<lparr>o_id = nextId w1, o_path = path, o_match = match, o_noop = True\<rparr>
               (w1\<lparr>nextId := nextId w1 + 1\<rparr>)
        else
          let (t, w2) = transition \<lparr>o_id = nextId w1, o_path = path, o_match = match,
                                    o_noop = False\<rparr>
                          (w1\<lparr>nextId := nextId w1 + 1\<rparr>)
          in (t, w2\<lparr>state := (state w2)\<lparr>activeTransition := Some t\<rparr>\<rparr>))"

text \<open>
  \<open>destroy()\<close> (lines 219-230), without the location and the link interception: the
  pending transition is cancelled and the state becomes \<open>{}\<close>.
\<close>

definition destroy :: "router \<Rightarrow> router" where
  "destroy w =
     (let w1 = (case activeTransition (state w) of None \<Rightarrow> w | Some a \<Rightarrow> cancel a None w)
      in w1\<lparr>state := \<lparr>committed = None, activeTransition = None\<rparr>\<rparr>)"

text \<open>\<open>isActive(name, params, query)\<close> (lines 241-254); an omitted argument is \<open>None\<close>.\<close>

definition isActive :: "router \<Rightarrow> string \<Rightarrow> obj option \<Rightarrow> obj option \<Rightarrow> bool" where
  "isActive w name params0 query0 =
     (let params = (case params0 of None \<Rightarrow> [] | Some p \<Rightarrow> p);
          query = (case query0 of None \<Rightarrow> [] | Some q \<Rightarrow> q);
          activeRoutes = (case committed (state w) of None \<Rightarrow> [] | Some c \<Rightarrow> c_routes c);
          activeParams = (case committed (state w) of None \<Rightarrow> [] | Some c \<Rightarrow> c_params c);
          activeQuery = (case committed (state w) of None \<Rightarrow> [] | Some c \<Rightarrow> c_query c);
          isActive1 = list_ex (\<lambda>route. d_name route = name) activeRoutes;
          isActive2 = (isActive1 \<and>
                       list_all (\<lambda>key. map_of activeParams key = map_of params key) (keys params));
          isActive3 = (isActive2 \<and>
                       list_all (\<lambda>key. map_of activeQuery key = map_of query key) (keys query))
      in isActive3)"

text \<open>
  What can happen to a router between two observations: a dispatch, a step of the
  middleware chain of one of its transitions, a cancellation of one of its transitions, the
  registration of a middleware.
\<close>

datatype event =
  Dispatch string
| Step nat step_result
| Cancel nat "transition_error option"
| Use string

definition apply_event :: "helpers \<Rightarrow> router \<Rightarrow> event \<Rightarrow> router" where
  "apply_event h w ev =
     (case ev of
        Dispatch path \<Rightarrow> snd (dispatch h path w)
      | Step r res \<Rightarrow> (if r < length (transitions w) then callNext r res w else w)
      | Cancel r err \<Rightarrow> (if r < length (transitions w) then cancel r err w else w)
      | Use m \<Rightarrow> use m w)"

definition run :: "helpers \<Rightarrow> router \<Rightarrow> event list \<Rightarrow> router" where
  "run h w evs = foldl (apply_event h) w evs"

section \<open>Invariants and concrete routers\<close>

text \<open>
  The branches that \<open>eachBranch\<close> visits, in the order of the visits, and the traversal as
  a loop over them (lemma \<open>eachBranch_branches\<close> below).
\<close>

fun branches :: "route list \<Rightarrow> route list \<Rightarrow> route list list" where
  "branches [] memo = []"
| "branches (Route n p opts rs # rest) memo =
     (memo @ [Route n p opts rs]) # branches rs (memo @ [Route n p opts rs]) @ branches rest memo"

fun forEach_branch :: "(route list \<Rightarrow> 's \<Rightarrow> error + 's) \<Rightarrow> route list list \<Rightarrow> 's \<Rightarrow> error + 's" where
  "forEach_branch fn [] s = Inr s"
| "forEach_branch fn (b # bs) s =
     (case fn b s of Inl e \<Rightarrow> Inl e | Inr s1 \<Rightarrow> forEach_branch fn bs s1)"

text \<open>The branches that end in a route that is not abstract.\<close>

definition concrete :: "route list list \<Rightarrow> route list list" where
  "concrete bs = filter (\<lambda>b. \<not> abstract (r_options (last b))) bs"

text \<open>The message of the error of lines 90-91.\<close>

definition duplicate_message :: "string \<Rightarrow> string \<Rightarrow> string \<Rightarrow> string" where
  "duplicate_message n1 n2 path =
     ''Routes '' @ n1 @ '' and '' @ n2 @ '' have the same url path '' @ [CHR 0x27] @ path @ [CHR 0x27]"

text \<open>
  The matcher that lines 82-86 push for a branch, the assignments \<open>dupes[path] = name\<close>
  and \<open>abstracts[path] = name\<close> for a branch, and the matcher that lines 108-112 push for
  an abstract path.
\<close>

definition branch_matcher :: "route list \<Rightarrow> matcher" where
  "branch_matcher b = \<lparr>m_routes = b, m_name = r_name (last b), m_path = branch_path b\<rparr>"

definition record_name :: "obj \<Rightarrow> route list \<Rightarrow> obj" where
  "record_name ob b = AList.update (branch_path b) (r_name (last b)) ob"

definition index_matcher :: "matcher list \<Rightarrow> obj \<Rightarrow> string \<Rightarrow> matcher" where
  "index_matcher ms absts path =
     \<lparr>m_routes = m_routes (the (some_with_path path ms)), m_name = the (map_of absts path),
      m_path = path\<rparr>"


text \<open>Every path with a truthy entry in \<open>dupes\<close> is the path of a matcher.\<close>

definition dupes_registered :: "map_state \<Rightarrow> bool" where
  "dupes_registered s = list_all (\<lambda>p. truthy (map_of (dupes s) p) \<longrightarrow> some_with_path p (matchers s) \<noteq> None) (keys (dupes s))"

text \<open>
  The truthy entries of \<open>dupes\<close> are the names of branches registered so far, under their
  paths, and every branch registered so far has a truthy entry.
\<close>

definition dupes_track :: "map_state \<Rightarrow> route list list \<Rightarrow> bool" where
  "dupes_track s dn =
     ((\<forall>p. truthy (map_of (dupes s) p) \<longrightarrow>
           (\<exists>i < length dn. branch_path (dn ! i) = p \<and>
                             map_of (dupes s) p = Some (r_name (last (dn ! i))))) \<and>
      (\<forall>b \<in> set dn. truthy (map_of (dupes s) (branch_path b))))"

text \<open>
  The active-transition slot, when set, refers to a transition of the store that is still
  pending. This holds for a new router and is kept by every event (lemmas
  \<open>wf_router_Cherrytree\<close> and \<open>wf_router_run\<close> below).
\<close>

definition wf_router :: "router \<Rightarrow> bool" where
  "wf_router w =
     (case activeTransition (state w) of
        None \<Rightarrow> True
      | Some a \<Rightarrow> a < length (transitions w) \<and> t_tag (transitions w ! a) = Pending)"

text \<open>The transition at reference \<open>r\<close> is \<open>t\<close> and has left the pending state.\<close>

definition settled_at :: "router \<Rightarrow> nat \<Rightarrow> transition \<Rightarrow> bool" where
  "settled_at w r t = (r < length (transitions w) \<and> transitions w ! r = t \<and> t_tag t \<noteq> Pending)"

text \<open>
  Modelled from the spec: an instance of the helpers of \<open>path.js\<close> and \<open>dash.js\<close>, which
  are not among the sources, for evaluating the router on concrete inputs.
  \<open>withoutQuery\<close> gives the pathname, the path without its query string: the text before
  the first question mark. Patterns are without captures and match exactly their own
  text, no query is decoded, and two objects are equal when they are equal as lists.
\<close>

definition literal_helpers :: helpers where
  "literal_helpers =
     \<lparr>extractParams = (\<lambda>pattern path. if pattern = path then Some [] else None),
      extractParamNames = (\<lambda>pattern. []),
      withoutQuery = takeWhile (\<lambda>c. c \<noteq> CHR ''?''),
      extractQuery = (\<lambda>path. None),
      pick = (\<lambda>ob names. filter (\<lambda>kv. fst kv \<in> set names) ob),
      isEqual = (\<lambda>a b. a = b)\<rparr>"

text \<open>
  A router with two routes and one middleware, and two states it reaches: after
  \<open>dispatch('/about')\<close>, and after that transition has completed.
\<close>

definition example_routes :: "route list" where
  "example_routes =
     [Route ''home'' ''/'' \<lparr>abstract = False\<rparr> [],
      Route ''about'' ''about'' \<lparr>abstract = False\<rparr> []]"

definition example_matchers :: "matcher list" where
  "example_matchers =
     [\<lparr>m_routes = [Route ''home'' ''/'' \<lparr>abstract = False\<rparr> []], m_name = ''home'',
       m_path = ''/''\<rparr>,
      \<lparr>m_routes = [Route ''about'' ''about'' \<lparr>abstract = False\<rparr> []], m_name = ''about'',
       m_path = ''/about''\<rparr>]"

definition about_match :: match_result where
  "about_match =
     \<lparr>mr_routes = [\<lparr>d_name = ''about'', d_path = ''about'', d_params = [],
                     d_options = \<lparr>abstract = False\<rparr>\<rparr>],
      mr_params = [], mr_pathname = ''/about'', mr_query = []\<rparr>"

definition example_router :: router where
  "example_router =
     \<lparr>nextId = 1, state = \<lparr>committed = None, activeTransition = None\<rparr>,
      middleware = [''log''], this_matchers = example_matchers, transitions = []\<rparr>"

definition pending_router :: router where
  "pending_router =
     \<lparr>nextId = 2, state = \<lparr>committed = None, activeTransition = Some 0\<rparr>,
      middleware = [''log''], this_matchers = example_matchers,
      transitions =
        [\<lparr>t_id = 1, t_path = ''/about'', t_pathname = ''/about'', t_params = [], t_query = [],
          t_routes = mr_routes about_match, t_noop = False, t_tag = Pending,
          t_outcome = None, t_invoked = 0\<rparr>]\<rparr>"

definition committed_router :: router where
  "committed_router =
     \<lparr>nextId = 2,
      state = \<lparr>committed = Some \<lparr>c_path = ''/about'', c_pathname = ''/about'', c_params = [],
                                  c_query = [], c_routes = mr_routes about_match\<rparr>,
               activeTransition = None\<rparr>,
      middleware = [''log''], this_matchers = example_matchers,
      transitions =
        [\<lparr>t_id = 1, t_path = ''/about'', t_pathname = ''/about'', t_params = [], t_query = [],
          t_routes = mr_routes about_match, t_noop = False, t_tag = Completed,
          t_outcome = None, t_invoked = 1\<rparr>]\<rparr>"

section \<open>Properties of map\<close>





text \<open>
  A branch path starts with a slash, so it is never an array index: the keys of \<open>dupes\<close>
  and \<open>abstracts\<close> are enumerated in the order of their insertion.
\<close>

lemma leading_slash_strip:
  "s = [] \<or> leading_slash s \<Longrightarrow> strip_trailing_slash s = [] \<or> leading_slash (strip_trailing_slash s)"
  by (cases s rule: rev_cases; cases s)
     (auto simp: strip_trailing_slash_def leading_slash_def split: list.splits)

lemma reduce_path_leading_slash:
  "memo = [] \<or> leading_slash memo \<Longrightarrow>
   (let r = reduce (\<lambda>memo r. strip_trailing_slash
                 (if leading_slash (r_path r) then r_path r else memo @ ''/'' @ r_path r)) rs memo
    in r = [] \<or> leading_slash r)"
proof (induction rs arbitrary: memo)
  case Nil
  then show ?case by simp
next
  case (Cons r rs)
  have "(if leading_slash (r_path r) then r_path r else memo @ ''/'' @ r_path r) = [] \<or>
        leading_slash (if leading_slash (r_path r) then r_path r else memo @ ''/'' @ r_path r)"
    using Cons.prems by (auto simp: leading_slash_def split: list.splits)
  from leading_slash_strip[OF this] Cons.IH show ?case by simp
qed

lemma branch_path_leading_slash: "leading_slash (branch_path rs)"
  using reduce_path_leading_slash[of "[]" rs]
  by (auto simp: branch_path_def Let_def leading_slash_def)



lemma some_with_path_Some:
  "some_with_path p ms = Some m \<Longrightarrow> m \<in> set ms \<and> m_path m = p"
  by (induction ms) (auto split: if_splits)





lemma map_example_routes: "map_routes example_routes = Inr example_matchers"
  by (simp add: map_routes_def example_routes_def example_matchers_def register_branch_def
      branch_path_def strip_trailing_slash_def leading_slash_def truthy_def keys_def Let_def)


text \<open>The traversal is a loop over the branches.\<close>

lemma forEach_branch_append:
  "forEach_branch fn (xs @ ys) s =
     (case forEach_branch fn xs s of Inl e \<Rightarrow> Inl e | Inr s1 \<Rightarrow> forEach_branch fn ys s1)"
  by (induction xs arbitrary: s) (auto split: sum.splits)

lemma eachBranch_branches: "eachBranch rs memo fn s = forEach_branch fn (branches rs memo) s"
proof (induction rs memo fn s rule: eachBranch.induct)
  case (1 memo fn s)
  show ?case by simp
next
  case (2 n p opts rs rest memo fn s)
  show ?case
  proof (cases "fn (memo @ [Route n p opts rs]) s")
    case (Inl e)
    then show ?thesis by simp
  next
    case (Inr s1)
    have sub: "(if rs \<noteq> [] then eachBranch rs (memo @ [Route n p opts rs]) fn s1 else Inr s1) =
               forEach_branch fn (branches rs (memo @ [Route n p opts rs])) s1"
      using "2.IH"(1)[OF Inr] by (cases "rs = []") simp_all
    show ?thesis
    proof (cases "forEach_branch fn (branches rs (memo @ [Route n p opts rs])) s1")
      case (Inl e)
      with Inr sub show ?thesis by (simp add: forEach_branch_append)
    next
      case (Inr s2)
      note s2 = this
      from sub s2 have "(if rs \<noteq> [] then eachBranch rs (memo @ [Route n p opts rs]) fn s1 else Inr s1) = Inr s2"
        by simp
      from "2.IH"(2)[OF \<open>fn (memo @ [Route n p opts rs]) s = Inr s1\<close> this]
      show ?thesis
        using \<open>fn (memo @ [Route n p opts rs]) s = Inr s1\<close> sub s2
        by (simp add: forEach_branch_append)
    qed
  qed
qed

lemma branches_nonempty: "b \<in> set (branches rs memo) \<Longrightarrow> b \<noteq> []"
  by (induction rs memo rule: branches.induct) auto

lemma map_routes_traversal:
  "map_routes decl =
     (case forEach_branch register_branch (branches decl []) \<lparr>matchers = [], dupes = [], abstracts = []\<rparr> of
        Inl e \<Rightarrow> Inl e
      | Inr s \<Rightarrow> forEach_abstract (dupes s) (abstracts s) (keys (abstracts s)) (matchers s))"
  by (simp add: map_routes_def eachBranch_branches)

lemma forEach_branch_invariant:
  assumes "\<And>b s s'. P s \<Longrightarrow> fn b s = Inr s' \<Longrightarrow> P s'"
    and "P s" and "forEach_branch fn bs s = Inr s'"
  shows "P s'"
  using assms(2,3)
proof (induction bs arbitrary: s)
  case Nil
  then show ?case by simp
next
  case (Cons b bs)
  from Cons.prems(2) obtain s1 where s1: "fn b s = Inr s1" and r: "forEach_branch fn bs s1 = Inr s'"
    by (auto split: sum.splits)
  from Cons.IH[OF assms(1)[OF Cons.prems(1) s1] r] show ?case .
qed

lemma register_branch_abstract:
  "b \<noteq> [] \<Longrightarrow> abstract (r_options (last b)) \<Longrightarrow>
   register_branch b s = Inr (s\<lparr>abstracts := AList.update (branch_path b) (r_name (last b)) (abstracts s)\<rparr>)"
  by (cases b) (simp_all add: register_branch_def Let_def)

lemma register_branch_fresh:
  "b \<noteq> [] \<Longrightarrow> \<not> abstract (r_options (last b)) \<Longrightarrow> \<not> truthy (map_of (dupes s) (branch_path b)) \<Longrightarrow>
   register_branch b s =
     Inr (s\<lparr>matchers := matchers s @
               [\<lparr>m_routes = b, m_name = r_name (last b), m_path = branch_path b\<rparr>],
            dupes := AList.update (branch_path b) (r_name (last b)) (dupes s)\<rparr>)"
  by (cases b) (simp_all add: register_branch_def Let_def)

lemma register_branch_duplicate:
  "b \<noteq> [] \<Longrightarrow> \<not> abstract (r_options (last b)) \<Longrightarrow> truthy (map_of (dupes s) (branch_path b)) \<Longrightarrow>
   register_branch b s =
     Inl (Error (duplicate_message (the (map_of (dupes s) (branch_path b))) (r_name (last b))
                   (branch_path b)))"
  by (cases b) (simp_all add: register_branch_def Let_def duplicate_message_def)

lemma truthy_update:
  "truthy (map_of (AList.update k v al) p) = (if p = k then v \<noteq> [] else truthy (map_of al p))"
  by (simp add: update_conv' truthy_def)

text \<open>With pairwise distinct paths of the concrete branches \<open>map\<close> succeeds.\<close>

lemma forEach_branch_register_succeeds:
  assumes "\<forall>b \<in> set bs. b \<noteq> []"
    and "distinct (map branch_path (concrete bs))"
    and "\<forall>b \<in> set (concrete bs). \<not> truthy (map_of (dupes s) (branch_path b))"
  shows "\<exists>s'. forEach_branch register_branch bs s = Inr s'"
  using assms
proof (induction bs arbitrary: s)
  case Nil
  then show ?case by simp
next
  case (Cons b bs)
  from Cons.prems(1) have ne: "b \<noteq> []" and nes: "\<forall>b \<in> set bs. b \<noteq> []" by simp_all
  show ?case
  proof (cases "abstract (r_options (last b))")
    case True
    let ?s1 = "s\<lparr>abstracts := AList.update (branch_path b) (r_name (last b)) (abstracts s)\<rparr>"
    from True Cons.prems have "distinct (map branch_path (concrete bs))"
      and "\<forall>b \<in> set (concrete bs). \<not> truthy (map_of (dupes ?s1) (branch_path b))"
      by (simp_all add: concrete_def)
    from Cons.IH[OF nes this] show ?thesis
      by (simp add: register_branch_abstract[OF ne True])
  next
    case False
    let ?s1 = "s\<lparr>matchers := matchers s @
                   [\<lparr>m_routes = b, m_name = r_name (last b), m_path = branch_path b\<rparr>],
                 dupes := AList.update (branch_path b) (r_name (last b)) (dupes s)\<rparr>"
    from False Cons.prems(3) have fresh: "\<not> truthy (map_of (dupes s) (branch_path b))"
      by (simp add: concrete_def)
    from False Cons.prems(2) have d: "distinct (map branch_path (concrete bs))"
      and notin: "branch_path b \<notin> branch_path ` set (concrete bs)"
      by (simp_all add: concrete_def)
    have "\<forall>b' \<in> set (concrete bs). \<not> truthy (map_of (dupes ?s1) (branch_path b'))"
    proof
      fix b' assume b': "b' \<in> set (concrete bs)"
      with notin have "branch_path b' \<noteq> branch_path b" by (metis image_eqI)
      moreover from b' False Cons.prems(3) have "\<not> truthy (map_of (dupes s) (branch_path b'))"
        by (simp add: concrete_def)
      ultimately show "\<not> truthy (map_of (dupes ?s1) (branch_path b'))"
        by (simp add: truthy_update)
    qed
    from Cons.IH[OF nes d this] show ?thesis
      by (simp add: register_branch_fresh[OF ne False fresh])
  qed
qed

lemma some_with_path_append:
  "some_with_path p (ms @ [m]) =
     (case some_with_path p ms of Some x \<Rightarrow> Some x | None \<Rightarrow> if m_path m = p then Some m else None)"
  by (induction ms) auto

lemma truthy_in_keys: "truthy (map_of al p) \<Longrightarrow> p \<in> set (keys al)"
  by (auto simp: truthy_def keys_def split: option.splits dest: map_of_SomeD intro: rev_image_eqI)

lemma dupes_registered_iff:
  "dupes_registered s \<longleftrightarrow> (\<forall>p. truthy (map_of (dupes s) p) \<longrightarrow> some_with_path p (matchers s) \<noteq> None)"
  by (auto simp: dupes_registered_def list_all_iff dest: truthy_in_keys)

lemma register_branch_dupes_registered:
  assumes "dupes_registered s" and "register_branch b s = Inr s'"
  shows "dupes_registered s'"
proof (cases "b = []")
  case True
  with assms(2) show ?thesis by (simp add: register_branch_def)
next
  case ne: False
  show ?thesis
  proof (cases "abstract (r_options (last b))")
    case True
    with assms ne show ?thesis
      by (auto simp: register_branch_abstract dupes_registered_iff)
  next
    case False
    show ?thesis
    proof (cases "truthy (map_of (dupes s) (branch_path b))")
      case True
      with assms(2) ne False show ?thesis by (simp add: register_branch_duplicate)
    next
      case fresh: False
      from assms(2) have s': "s' = s\<lparr>matchers := matchers s @
               [\<lparr>m_routes = b, m_name = r_name (last b), m_path = branch_path b\<rparr>],
            dupes := AList.update (branch_path b) (r_name (last b)) (dupes s)\<rparr>"
        by (simp add: register_branch_fresh[OF ne False fresh])
      show ?thesis
        using assms(1) unfolding dupes_registered_iff s'
        by (auto simp: truthy_update some_with_path_append split: option.splits if_splits)
    qed
  qed
qed

lemma forEach_abstract_succeeds:
  "\<forall>p. truthy (map_of dps p) \<longrightarrow> some_with_path p ms \<noteq> None \<Longrightarrow>
   \<exists>ms'. forEach_abstract dps absts ps ms = Inr ms'"
proof (induction ps arbitrary: ms)
  case Nil
  then show ?case by simp
next
  case (Cons p ps)
  show ?case
  proof (cases "truthy (map_of dps p)")
    case False
    with Cons show ?thesis by (simp add: forward_index_def)
  next
    case True
    with Cons.prems obtain m where m: "some_with_path p ms = Some m" by auto
    let ?ms1 = "ms @ [\<lparr>m_routes = m_routes m, m_name = the (map_of absts p), m_path = p\<rparr>]"
    have "\<forall>q. truthy (map_of dps q) \<longrightarrow> some_with_path q ?ms1 \<noteq> None"
      using Cons.prems by (auto simp: some_with_path_append split: option.splits)
    from Cons.IH[OF this] True m show ?thesis by (simp add: forward_index_def)
  qed
qed

lemma map_distinct_paths_succeeds:
  assumes "distinct (map branch_path (concrete (branches decl [])))"
  shows "\<exists>ms. map_routes decl = Inr ms"
proof -
  let ?s0 = "\<lparr>matchers = [], dupes = [], abstracts = []\<rparr>"
  have "\<exists>s. forEach_branch register_branch (branches decl []) ?s0 = Inr s"
    by (rule forEach_branch_register_succeeds)
       (use assms in \<open>auto simp: truthy_def dest: branches_nonempty\<close>)
  then obtain s where s: "forEach_branch register_branch (branches decl []) ?s0 = Inr s" ..
  have "dupes_registered s"
  proof (rule forEach_branch_invariant[where P = dupes_registered, OF _ _ s])
    show "dupes_registered ?s0" by (simp add: dupes_registered_def keys_def)
  qed (rule register_branch_dupes_registered)
  then have "\<exists>ms. forEach_abstract (dupes s) (abstracts s) (keys (abstracts s)) (matchers s) = Inr ms"
    unfolding dupes_registered_iff by (rule forEach_abstract_succeeds)
  with s show ?thesis by (simp add: map_routes_traversal)
qed

text \<open>
  When two concrete branches have the same path and every concrete route has a name,
  \<open>map\<close> throws the error that names two concrete routes of the same path.
\<close>

lemma forEach_branch_register_throws:
  assumes "\<forall>b \<in> set bs. b \<noteq> []"
    and "\<forall>b \<in> set (concrete bs). r_name (last b) \<noteq> []"
    and "dupes_track s dn"
    and "distinct (map branch_path dn)"
    and "\<not> distinct (map branch_path (dn @ concrete bs))"
  shows "\<exists>i j. i < j \<and> j < length (dn @ concrete bs) \<and>
           branch_path ((dn @ concrete bs) ! i) = branch_path ((dn @ concrete bs) ! j) \<and>
           forEach_branch register_branch bs s =
             Inl (Error (duplicate_message (r_name (last ((dn @ concrete bs) ! i)))
                           (r_name (last ((dn @ concrete bs) ! j)))
                           (branch_path ((dn @ concrete bs) ! j))))"
  using assms
proof (induction bs arbitrary: s dn)
  case Nil
  then show ?case by (simp add: concrete_def)
next
  case (Cons b bs)
  from Cons.prems(1) have ne: "b \<noteq> []" and nes: "\<forall>b \<in> set bs. b \<noteq> []" by simp_all
  show ?case
  proof (cases "abstract (r_options (last b))")
    case True
    let ?s1 = "s\<lparr>abstracts := AList.update (branch_path b) (r_name (last b)) (abstracts s)\<rparr>"
    have c: "concrete (b # bs) = concrete bs" using True by (simp add: concrete_def)
    have t: "dupes_track ?s1 dn" using Cons.prems(3) by (simp add: dupes_track_def)
    from Cons.IH[OF nes _ t Cons.prems(4)] Cons.prems(2,5) show ?thesis
      by (simp add: c register_branch_abstract[OF ne True])
  next
    case False
    have c: "concrete (b # bs) = b # concrete bs" using False by (simp add: concrete_def)
    have cs: "dn @ concrete (b # bs) = (dn @ [b]) @ concrete bs" by (simp add: c)
    show ?thesis
    proof (cases "truthy (map_of (dupes s) (branch_path b))")
      case True
      with Cons.prems(3) obtain i where i: "i < length dn"
        and pi: "branch_path (dn ! i) = branch_path b"
        and ni: "map_of (dupes s) (branch_path b) = Some (r_name (last (dn ! i)))"
        by (auto simp: dupes_track_def)
      have "i < length dn \<and> length dn < length (dn @ concrete (b # bs)) \<and>
            branch_path ((dn @ concrete (b # bs)) ! i) =
              branch_path ((dn @ concrete (b # bs)) ! length dn) \<and>
            forEach_branch register_branch (b # bs) s =
              Inl (Error (duplicate_message (r_name (last ((dn @ concrete (b # bs)) ! i)))
                            (r_name (last ((dn @ concrete (b # bs)) ! length dn)))
                            (branch_path ((dn @ concrete (b # bs)) ! length dn))))"
        using i pi ni by (simp add: c nth_append register_branch_duplicate[OF ne False True])
      then show ?thesis by blast
    next
      case fresh: False
      let ?s1 = "s\<lparr>matchers := matchers s @
                     [\<lparr>m_routes = b, m_name = r_name (last b), m_path = branch_path b\<rparr>],
                   dupes := AList.update (branch_path b) (r_name (last b)) (dupes s)\<rparr>"
      from Cons.prems(2) c have nb: "r_name (last b) \<noteq> []" by simp
      from Cons.prems(2) c have nbs: "\<forall>b \<in> set (concrete bs). r_name (last b) \<noteq> []" by simp
      have notin: "branch_path b \<notin> branch_path ` set dn"
        using Cons.prems(3) fresh by (auto simp: dupes_track_def)
      have t: "dupes_track ?s1 (dn @ [b])"
        unfolding dupes_track_def
      proof (intro conjI allI impI ballI)
        fix p assume tp: "truthy (map_of (dupes ?s1) p)"
        show "\<exists>i<length (dn @ [b]). branch_path ((dn @ [b]) ! i) = p \<and>
                map_of (dupes ?s1) p = Some (r_name (last ((dn @ [b]) ! i)))"
        proof (cases "p = branch_path b")
          case True
          then have "length dn < length (dn @ [b]) \<and> branch_path ((dn @ [b]) ! length dn) = p \<and>
                map_of (dupes ?s1) p = Some (r_name (last ((dn @ [b]) ! length dn)))"
            by (simp add: update_conv')
          then show ?thesis by blast
        next
          case False
          with tp have "truthy (map_of (dupes s) p)" by (simp add: truthy_update)
          with Cons.prems(3) obtain i where "i < length dn" "branch_path (dn ! i) = p"
            "map_of (dupes s) p = Some (r_name (last (dn ! i)))"
            by (auto simp: dupes_track_def)
          with False have "i < length (dn @ [b]) \<and> branch_path ((dn @ [b]) ! i) = p \<and>
                map_of (dupes ?s1) p = Some (r_name (last ((dn @ [b]) ! i)))"
            by (simp add: nth_append update_conv')
          then show ?thesis by blast
        qed
      next
        fix b' assume "b' \<in> set (dn @ [b])"
        then show "truthy (map_of (dupes ?s1) (branch_path b'))"
          using Cons.prems(3) nb by (auto simp: truthy_update dupes_track_def)
      qed
      have d: "distinct (map branch_path (dn @ [b]))"
        using Cons.prems(4) notin by simp
      have nd: "\<not> distinct (map branch_path ((dn @ [b]) @ concrete bs))"
        using Cons.prems(5) by (simp add: c)
      from Cons.IH[OF nes nbs t d nd] show ?thesis
        unfolding cs by (simp add: register_branch_fresh[OF ne False fresh])
    qed
  qed
qed

lemma map_named_duplicate_throws:
  assumes "\<not> distinct (map branch_path (concrete (branches decl [])))"
    and "\<forall>b \<in> set (concrete (branches decl [])). r_name (last b) \<noteq> []"
  shows "\<exists>i j. i < j \<and> j < length (concrete (branches decl [])) \<and>
           branch_path (concrete (branches decl []) ! i) =
             branch_path (concrete (branches decl []) ! j) \<and>
           map_routes decl =
             Inl (Error (duplicate_message (r_name (last (concrete (branches decl []) ! i)))
                           (r_name (last (concrete (branches decl []) ! j)))
                           (branch_path (concrete (branches decl []) ! j))))"
proof -
  let ?s0 = "\<lparr>matchers = [], dupes = [], abstracts = []\<rparr>"
  have ne: "\<forall>b \<in> set (branches decl []). b \<noteq> []" by (auto dest: branches_nonempty)
  have t: "dupes_track ?s0 []" by (simp add: dupes_track_def truthy_def)
  from forEach_branch_register_throws[OF ne assms(2) t, simplified, OF assms(1)]
  obtain i j where "i < j" "j < length (concrete (branches decl []))"
    "branch_path (concrete (branches decl []) ! i) = branch_path (concrete (branches decl []) ! j)"
    "forEach_branch register_branch (branches decl []) ?s0 =
       Inl (Error (duplicate_message (r_name (last (concrete (branches decl []) ! i)))
                     (r_name (last (concrete (branches decl []) ! j)))
                     (branch_path (concrete (branches decl []) ! j))))"
    by blast
  then have "i < j \<and> j < length (concrete (branches decl [])) \<and>
           branch_path (concrete (branches decl []) ! i) =
             branch_path (concrete (branches decl []) ! j) \<and>
           map_routes decl =
             Inl (Error (duplicate_message (r_name (last (concrete (branches decl []) ! i)))
                           (r_name (last (concrete (branches decl []) ! j)))
                           (branch_path (concrete (branches decl []) ! j))))"
    by (simp add: map_routes_traversal)
  then show ?thesis by blast
qed

theorem named_routes_duplicate_throws:
  "map_routes [Route ''a'' ''a'' \<lparr>abstract = False\<rparr> [],
               Route ''b'' ''a'' \<lparr>abstract = False\<rparr> []] =
   Inl (Error (''Routes a and b have the same url path '' @ [CHR 0x27] @ ''/a'' @ [CHR 0x27]))"
  by (simp add: map_routes_def register_branch_def branch_path_def strip_trailing_slash_def
      leading_slash_def truthy_def keys_def Let_def)

text \<open>
  C5: two distinct non-abstract branches with the same normalized path make \<open>map\<close>
  throw an error that names both routes. For routes with names this is
  \<open>map_named_duplicate_throws\<close>. The check \<open>if (dupes[path])\<close> tests the truthiness of the
  recorded name, though, so a route whose name is the empty string is not seen as
  registered: on the declaration below, with the two branches \<open>/a\<close>, \<open>map\<close> returns
  normally with two matchers of the same path.
\<close>

theorem unnamed_route_hides_duplicate:
  "map_routes [Route '''' ''a'' \<lparr>abstract = False\<rparr> [],
               Route ''b'' ''a'' \<lparr>abstract = False\<rparr> []] =
   Inr [\<lparr>m_routes = [Route '''' ''a'' \<lparr>abstract = False\<rparr> []], m_name = '''', m_path = ''/a''\<rparr>,
        \<lparr>m_routes = [Route ''b'' ''a'' \<lparr>abstract = False\<rparr> []], m_name = ''b'', m_path = ''/a''\<rparr>]"
  by (simp add: map_routes_def register_branch_def branch_path_def strip_trailing_slash_def
      leading_slash_def truthy_def keys_def Let_def)

text \<open>
  The result of a successful \<open>map\<close>: the matchers of the concrete branches in the order
  of the traversal, then one matcher for every path recorded in \<open>abstracts\<close> that has a
  truthy entry in \<open>dupes\<close>, under the name recorded last for that path and with the routes
  of the concrete matcher of the path.
\<close>

lemma forEach_branch_register_result:
  assumes "\<forall>b \<in> set bs. b \<noteq> []"
    and "forEach_branch register_branch bs s = Inr s'"
  shows "matchers s' = matchers s @ map branch_matcher (concrete bs) \<and>
         dupes s' = foldl record_name (dupes s) (concrete bs) \<and>
         abstracts s' = foldl record_name (abstracts s)
                          (filter (\<lambda>b. abstract (r_options (last b))) bs)"
  using assms
proof (induction bs arbitrary: s)
  case Nil
  then show ?case by (simp add: concrete_def)
next
  case (Cons b bs)
  from Cons.prems(1) have ne: "b \<noteq> []" and nes: "\<forall>b \<in> set bs. b \<noteq> []" by simp_all
  show ?case
  proof (cases "abstract (r_options (last b))")
    case True
    with Cons.prems(2) ne have
      "forEach_branch register_branch bs
         (s\<lparr>abstracts := AList.update (branch_path b) (r_name (last b)) (abstracts s)\<rparr>) = Inr s'"
      by (simp add: register_branch_abstract)
    from Cons.IH[OF nes this] True show ?thesis
      by (simp add: concrete_def record_name_def)
  next
    case False
    show ?thesis
    proof (cases "truthy (map_of (dupes s) (branch_path b))")
      case True
      with Cons.prems(2) ne False show ?thesis by (simp add: register_branch_duplicate)
    next
      case fresh: False
      with Cons.prems(2) ne False have
        "forEach_branch register_branch bs
           (s\<lparr>matchers := matchers s @
                 [\<lparr>m_routes = b, m_name = r_name (last b), m_path = branch_path b\<rparr>],
              dupes := AList.update (branch_path b) (r_name (last b)) (dupes s)\<rparr>) = Inr s'"
        by (simp add: register_branch_fresh)
      from Cons.IH[OF nes this] False show ?thesis
        by (simp add: concrete_def record_name_def branch_matcher_def)
    qed
  qed
qed

lemma some_with_path_prefix:
  "some_with_path p ms = Some m \<Longrightarrow> some_with_path p (ms @ ms2) = Some m"
  by (induction ms) (auto split: if_splits)

lemma forEach_abstract_result:
  assumes "forEach_abstract dps absts ps ms = Inr ms'"
  shows "ms' = ms @ map (index_matcher ms absts) (filter (\<lambda>p. truthy (map_of dps p)) ps)"
  using assms
proof (induction ps arbitrary: ms ms')
  case Nil
  then show ?case by simp
next
  case (Cons p ps)
  show ?case
  proof (cases "truthy (map_of dps p)")
    case False
    with Cons show ?thesis by (simp add: forward_index_def)
  next
    case True
    with Cons.prems obtain m where m: "some_with_path p ms = Some m"
      and r: "forEach_abstract dps absts ps
                (ms @ [\<lparr>m_routes = m_routes m, m_name = the (map_of absts p), m_path = p\<rparr>]) = Inr ms'"
      by (auto simp: forward_index_def split: option.splits sum.splits)
    let ?x = "\<lparr>m_routes = m_routes m, m_name = the (map_of absts p), m_path = p\<rparr>"
    have same: "index_matcher (ms @ [?x]) absts q = index_matcher ms absts q"
      if "truthy (map_of dps q)" "q \<in> set ps" for q
    proof (cases "some_with_path q ms")
      case None
      then show ?thesis
        by (cases "q = p") (use m in \<open>simp_all add: index_matcher_def some_with_path_append\<close>)
    next
      case (Some y)
      then show ?thesis by (simp add: index_matcher_def some_with_path_prefix)
    qed
    have "map (index_matcher (ms @ [?x]) absts) (filter (\<lambda>p. truthy (map_of dps p)) ps) =
          map (index_matcher ms absts) (filter (\<lambda>p. truthy (map_of dps p)) ps)"
      by (rule map_cong) (auto simp: same)
    with Cons.IH[OF r] True m show ?thesis by (simp add: index_matcher_def)
  qed
qed

lemma map_routes_result:
  assumes "map_routes decl = Inr ms"
  shows "ms = map branch_matcher (concrete (branches decl [])) @
              map (index_matcher (map branch_matcher (concrete (branches decl [])))
                     (foldl record_name [] (filter (\<lambda>b. abstract (r_options (last b))) (branches decl []))))
                (filter (\<lambda>p. truthy (map_of (foldl record_name [] (concrete (branches decl []))) p))
                   (keys (foldl record_name []
                            (filter (\<lambda>b. abstract (r_options (last b))) (branches decl [])))))"
proof -
  let ?s0 = "\<lparr>matchers = [], dupes = [], abstracts = []\<rparr>"
  from assms obtain s where
    s: "forEach_branch register_branch (branches decl []) ?s0 = Inr s"
    and f: "forEach_abstract (dupes s) (abstracts s) (keys (abstracts s)) (matchers s) = Inr ms"
    by (auto simp: map_routes_traversal split: sum.splits)
  have ne: "\<forall>b \<in> set (branches decl []). b \<noteq> []" by (auto dest: branches_nonempty)
  from forEach_branch_register_result[OF ne s] forEach_abstract_result[OF f]
  show ?thesis by simp
qed

text \<open>
  Every matcher of the result, forwarded or not, has the routes and the path of a concrete
  branch: an abstract branch is never the branch of a matcher, and an abstract path
  without a concrete matcher gets no entry.
\<close>

lemma truthy_record_name:
  "truthy (map_of (foldl record_name ob cs) p) \<Longrightarrow>
   truthy (map_of ob p) \<or> p \<in> branch_path ` set cs"
proof (induction cs arbitrary: ob)
  case Nil
  then show ?case by simp
next
  case (Cons c cs)
  from Cons.prems have "truthy (map_of (foldl record_name (record_name ob c) cs) p)" by simp
  from Cons.IH[OF this] show ?case
    by (auto simp: record_name_def truthy_update split: if_splits)
qed

lemma some_with_path_found:
  "p \<in> m_path ` set ms \<Longrightarrow> \<exists>m. some_with_path p ms = Some m"
  by (induction ms) auto

lemma map_matchers_are_concrete:
  assumes "map_routes decl = Inr ms" and "m \<in> set ms"
  shows "m_routes m \<in> set (concrete (branches decl [])) \<and> m_path m = branch_path (m_routes m)"
proof -
  let ?cs = "concrete (branches decl [])"
  let ?absts = "foldl record_name [] (filter (\<lambda>b. abstract (r_options (last b))) (branches decl []))"
  from map_routes_result[OF assms(1)] assms(2) consider
    (concrete) "m \<in> set (map branch_matcher ?cs)"
    | (index) p where "truthy (map_of (foldl record_name [] ?cs) p)"
        "m = index_matcher (map branch_matcher ?cs) ?absts p"
    by auto
  then show ?thesis
  proof cases
    case concrete
    then show ?thesis by (auto simp: branch_matcher_def)
  next
    case (index p)
    from truthy_record_name[OF index(1)] have "p \<in> branch_path ` set ?cs"
      by (simp add: truthy_def)
    then have "p \<in> m_path ` set (map branch_matcher ?cs)"
      by (force simp: branch_matcher_def)
    from some_with_path_found[OF this] obtain x where
      x: "some_with_path p (map branch_matcher ?cs) = Some x" ..
    from some_with_path_Some[OF x] have "x \<in> set (map branch_matcher ?cs)" and "m_path x = p"
      by simp_all
    then have "m_routes x \<in> set ?cs" and "p = branch_path (m_routes x)"
      by (auto simp: branch_matcher_def)
    with index(2) x show ?thesis by (simp add: index_matcher_def)
  qed
qed

text \<open>
  C6: every abstract branch whose path is also the path of a concrete matcher gets an
  additional matcher under its own name. The registry \<open>abstracts\<close> keeps one name for each
  path, so of two abstract branches with the same path only the one visited last is
  forwarded: below, \<open>app\<close> and \<open>section\<close> both normalize to \<open>/\<close>, the path of the index route
  \<open>home\<close>, and the result has a matcher for \<open>home\<close> and one for \<open>section\<close>, none for \<open>app\<close>.
\<close>

theorem outer_abstract_route_gets_no_index:
  "map_routes
     [Route ''app'' ''/'' \<lparr>abstract = True\<rparr>
        [Route ''section'' '''' \<lparr>abstract = True\<rparr>
           [Route ''home'' '''' \<lparr>abstract = False\<rparr> []]]] =
   Inr [\<lparr>m_routes =
          [Route ''app'' ''/'' \<lparr>abstract = True\<rparr>
             [Route ''section'' '''' \<lparr>abstract = True\<rparr>
                [Route ''home'' '''' \<lparr>abstract = False\<rparr> []]],
           Route ''section'' '''' \<lparr>abstract = True\<rparr> [Route ''home'' '''' \<lparr>abstract = False\<rparr> []],
           Route ''home'' '''' \<lparr>abstract = False\<rparr> []],
         m_name = ''home'', m_path = ''/''\<rparr>,
        \<lparr>m_routes =
          [Route ''app'' ''/'' \<lparr>abstract = True\<rparr>
             [Route ''section'' '''' \<lparr>abstract = True\<rparr>
                [Route ''home'' '''' \<lparr>abstract = False\<rparr> []]],
           Route ''section'' '''' \<lparr>abstract = True\<rparr> [Route ''home'' '''' \<lparr>abstract = False\<rparr> []],
           Route ''home'' '''' \<lparr>abstract = False\<rparr> []],
         m_name = ''section'', m_path = ''/''\<rparr>]"
  by (simp add: map_routes_def register_branch_def branch_path_def strip_trailing_slash_def
      leading_slash_def truthy_def keys_def forward_index_def Let_def)

section \<open>Properties of match\<close>

text \<open>Without a hit the loop leaves \<open>routes\<close> as it was, the empty list.\<close>

lemma some_matching_None:
  "some_matching ex p ms (ps0, rs0) = (None, rs) \<Longrightarrow> rs = rs0"
  by (induction ms arbitrary: ps0) (auto split: option.splits)

lemma some_matching_no_hit:
  "\<forall>m \<in> set ms. ex (m_path m) p = None \<Longrightarrow>
   some_matching ex p ms (ps, rs) = (if ms = [] then ps else None, rs)"
  by (induction ms arbitrary: ps) auto

lemma some_matching_first_hit:
  "\<forall>m \<in> set pre. ex (m_path m) p = None \<Longrightarrow> ex (m_path m) p = Some ps \<Longrightarrow>
   some_matching ex p (pre @ m # post) (ps0, rs0) = (Some ps, m_routes m)"
  by (induction pre arbitrary: ps0) auto

lemma trim_path_cases:
  "trim_path path =
     (if path = [] \<or> path = ''/'' then ''/''
      else if last path = CHR ''/'' then butlast path else path)"
  by (cases path rule: rev_cases) (auto simp: trim_path_def strip_trailing_slash_def Let_def)

text \<open>
  C7: \<open>match\<close> selects the first matcher in registration order whose pattern matches the
  pathname. When no matcher before \<open>m\<close> matches and \<open>m\<close> does, the result is built from
  \<open>m\<close> alone, whatever matchers are registered after it.
\<close>

theorem match_first_in_registration_order:
  assumes "\<forall>x \<in> set pre. extractParams h (m_path x) (withoutQuery h (trim_path path)) = None"
    and "extractParams h (m_path m) (withoutQuery h (trim_path path)) = Some ps"
  shows "match h (pre @ m # post) path =
           \<lparr>mr_routes = map (descriptor h ps) (m_routes m),
            mr_params = ps,
            mr_pathname = withoutQuery h (trim_path path),
            mr_query = (case extractQuery h (trim_path path) of Some q \<Rightarrow> q | None \<Rightarrow> [])\<rparr>"
  using some_matching_first_hit[where ex = "extractParams h" and post = post and ?ps0.0 = None
      and ?rs0.0 = "[]", OF assms]
  by (simp add: match_def Let_def)

lemma match_about: "match literal_helpers example_matchers ''/about'' = about_match"
  by (simp add: match_def literal_helpers_def example_matchers_def about_match_def
      trim_path_def strip_trailing_slash_def descriptor_def Let_def)

lemma match_about_slash: "match literal_helpers example_matchers ''/about/'' = about_match"
  by (simp add: match_def literal_helpers_def example_matchers_def about_match_def
      trim_path_def strip_trailing_slash_def descriptor_def Let_def)

lemma match_home: "match literal_helpers example_matchers ''/'' =
    \<lparr>mr_routes = [\<lparr>d_name = ''home'', d_path = ''/'', d_params = [],
                     d_options = \<lparr>abstract = False\<rparr>\<rparr>],
      mr_params = [], mr_pathname = ''/'', mr_query = []\<rparr>"
  by (simp add: match_def literal_helpers_def example_matchers_def
      trim_path_def strip_trailing_slash_def descriptor_def Let_def)

theorem match_first_in_registration_order_witness:
  "extractParams literal_helpers ''/about'' (withoutQuery literal_helpers (trim_path ''/about'')) = Some [] \<and>
   match literal_helpers
     (example_matchers @ [\<lparr>m_routes = [], m_name = ''late'', m_path = ''/about''\<rparr>]) ''/about'' =
   about_match"
proof -
  let ?m0 = "\<lparr>m_routes = [Route ''home'' ''/'' \<lparr>abstract = False\<rparr> []], m_name = ''home'',
       m_path = ''/''\<rparr>"
  let ?m1 = "\<lparr>m_routes = [Route ''about'' ''about'' \<lparr>abstract = False\<rparr> []], m_name = ''about'',
       m_path = ''/about''\<rparr>"
  let ?late = "\<lparr>m_routes = [], m_name = ''late'', m_path = ''/about''\<rparr>"
  have t: "withoutQuery literal_helpers (trim_path ''/about'') = ''/about''"
    by (simp add: trim_path_def strip_trailing_slash_def Let_def literal_helpers_def)
  have h1: "\<forall>x \<in> set [?m0]. extractParams literal_helpers (m_path x)
              (withoutQuery literal_helpers (trim_path ''/about'')) = None"
    by (simp add: t) (simp add: literal_helpers_def)
  have h2: "extractParams literal_helpers (m_path ?m1)
              (withoutQuery literal_helpers (trim_path ''/about'')) = Some []"
    by (simp add: t) (simp add: literal_helpers_def)
  from match_first_in_registration_order[OF h1 h2, of "[?late]"] h2 show ?thesis
    by (simp add: example_matchers_def about_match_def t descriptor_def)
       (simp add: literal_helpers_def trim_path_def strip_trailing_slash_def)
qed

lemma match_no_hit:
  assumes "\<forall>m \<in> set ms. extractParams h (m_path m) (withoutQuery h (trim_path path)) = None"
  shows "match h ms path =
           \<lparr>mr_routes = [], mr_params = [],
            mr_pathname = withoutQuery h (trim_path path),
            mr_query = (case extractQuery h (trim_path path) of Some q \<Rightarrow> q | None \<Rightarrow> [])\<rparr>"
  using some_matching_no_hit[where ex = "extractParams h" and ps = None and rs = "[]", OF assms]
  by (simp add: match_def Let_def split: if_splits)

section \<open>Properties of isActive\<close>

lemma list_all_keys_map_le:
  "list_all (\<lambda>key. map_of act key = map_of ob key) (keys ob) \<longleftrightarrow> map_of ob \<subseteq>\<^sub>m map_of act"
  by (auto simp: list_all_iff keys_def map_le_def dom_map_of_conv_image_fst)

text \<open>
  C8: \<open>isActive(name, params, query)\<close> is true exactly when the committed state has a route
  of that name, every supplied param is a committed param with the same value and every
  supplied query entry is a committed query entry with the same value; an omitted
  argument imposes no constraint.
\<close>

theorem isActive_iff_subset_match:
  "isActive w name params query \<longleftrightarrow>
     (case committed (state w) of
        None \<Rightarrow> False
      | Some c \<Rightarrow>
          (\<exists>route \<in> set (c_routes c). d_name route = name) \<and>
          (case params of None \<Rightarrow> True | Some ps \<Rightarrow> map_of ps \<subseteq>\<^sub>m map_of (c_params c)) \<and>
          (case query of None \<Rightarrow> True | Some qs \<Rightarrow> map_of qs \<subseteq>\<^sub>m map_of (c_query c)))"
  by (auto simp: isActive_def Let_def list_all_keys_map_le list_ex_iff
      split: option.splits)

theorem isActive_iff_subset_match_witness:
  "isActive committed_router ''about'' (Some []) None \<and>
   \<not> isActive committed_router ''about'' None (Some [(''page'', ''2'')]) \<and>
   \<not> isActive committed_router ''home'' None None"
  using isActive_iff_subset_match[of committed_router "''about''" "Some []" None]
    isActive_iff_subset_match[of committed_router "''about''" None "Some [(''page'', ''2'')]"]
    isActive_iff_subset_match[of committed_router "''home''" None None]
  by (simp add: committed_router_def about_match_def map_le_def)

section \<open>Properties of dispatch\<close>

lemma Cherrytree_example:
  "map_sum id (use ''log'') (Cherrytree example_routes) = Inr example_router"
  by (simp add: Cherrytree_def map_example_routes example_router_def use_def)

lemma dispatch_example: "dispatch literal_helpers ''/about'' example_router = (0, pending_router)"
  by (simp add: dispatch_def example_router_def pending_router_def match_about transition_def
      about_match_def Let_def)

lemma complete_example:
  "callNext 0 Resolved (callNext 0 Resolved pending_router) = committed_router"
  by (simp add: callNext_def pending_router_def committed_router_def Let_def)

lemma nth_list_update_if:
  "j < length xs \<Longrightarrow> xs[i := x] ! j = (if i = j then x else xs ! j)"
  by (cases "i = j") auto

lemma wf_router_Cherrytree: "Cherrytree routes = Inr w \<Longrightarrow> wf_router w"
  by (auto simp: Cherrytree_def wf_router_def split: sum.splits)

lemma wf_router_dispatch: "wf_router w \<Longrightarrow> wf_router (snd (dispatch h path w))"
  by (auto simp: dispatch_def Let_def wf_router_def transition_def cancel_def nth_append
      split: option.splits prod.splits if_splits)

lemma wf_router_cancel: "wf_router w \<Longrightarrow> wf_router (cancel r err w)"
  by (auto simp: wf_router_def cancel_def Let_def nth_list_update_if split: option.splits)

lemma wf_router_callNext: "wf_router w \<Longrightarrow> wf_router (callNext r res w)"
  by (auto simp: wf_router_def callNext_def Let_def nth_list_update_if
      split: option.splits step_result.splits)

lemma wf_router_use: "wf_router w \<Longrightarrow> wf_router (use m w)"
  by (simp add: use_def wf_router_def split: option.splits)

lemma wf_router_apply_event: "wf_router w \<Longrightarrow> wf_router (apply_event h w ev)"
  by (cases ev)
     (simp_all add: apply_event_def wf_router_dispatch wf_router_cancel wf_router_callNext
        wf_router_use)

lemma wf_router_run: "wf_router w \<Longrightarrow> wf_router (run h w evs)"
  unfolding run_def
  by (induction evs arbitrary: w) (auto intro: wf_router_apply_event)

lemma dispatch_ref_valid:
  assumes "wf_router w"
  shows "fst (dispatch h path w) < length (transitions (snd (dispatch h path w)))"
  using assms
  by (auto simp: dispatch_def Let_def wf_router_def transition_def cancel_def
      split: option.splits prod.splits if_splits)

text \<open>A transition that has left the pending state is never changed again.\<close>

lemma cancel_settled: "settled_at w r t \<Longrightarrow> settled_at (cancel a err w) r t"
  by (cases "a = r") (auto simp: settled_at_def cancel_def Let_def)

lemma callNext_settled: "settled_at w r t \<Longrightarrow> settled_at (callNext a res w) r t"
  by (cases "a = r") (auto simp: settled_at_def callNext_def Let_def split: step_result.splits)

lemma transition_settled: "settled_at w r t \<Longrightarrow> settled_at (snd (transition opts w)) r t"
  by (auto simp: settled_at_def transition_def nth_append)

lemma settled_at_nextId: "settled_at (w\<lparr>nextId := n\<rparr>) r t = settled_at w r t"
  by (simp add: settled_at_def)

lemma settled_at_state: "settled_at (w\<lparr>state := st\<rparr>) r t = settled_at w r t"
  by (simp add: settled_at_def)

lemma transition_settled_pair:
  "transition opts v = (x, v') \<Longrightarrow> settled_at v r t \<Longrightarrow> settled_at v' r t"
  using transition_settled[of v r t opts] by simp

lemma dispatch_settled:
  assumes "settled_at w r t"
  shows "settled_at (snd (dispatch h path w)) r t"
proof (cases "activeTransition (state w)")
  case None
  have "settled_at (w\<lparr>nextId := k\<rparr>) r t" for k
    using assms by (simp add: settled_at_nextId)
  with None show ?thesis
    by (auto simp: dispatch_def Let_def settled_at_state split: prod.splits option.splits
        elim: transition_settled_pair intro: transition_settled)
next
  case (Some a)
  have "settled_at ((cancel a err w)\<lparr>nextId := k\<rparr>) r t" for k err
    using cancel_settled[OF assms] by (simp add: settled_at_nextId)
  with Some show ?thesis
    by (auto simp: dispatch_def Let_def settled_at_state assms split: prod.splits
        elim: transition_settled_pair)
qed

lemma apply_event_settled: "settled_at w r t \<Longrightarrow> settled_at (apply_event h w ev) r t"
proof (cases ev)
  case (Dispatch p)
  assume "settled_at w r t"
  then show ?thesis using Dispatch by (simp add: apply_event_def dispatch_settled)
next
  case (Step a res)
  assume "settled_at w r t"
  then show ?thesis using Step by (simp add: apply_event_def callNext_settled)
next
  case (Cancel a err)
  assume "settled_at w r t"
  then show ?thesis using Cancel by (simp add: apply_event_def cancel_settled)
next
  case (Use m)
  assume "settled_at w r t"
  then show ?thesis using Use by (simp add: apply_event_def use_def settled_at_def)
qed

lemma run_settled: "settled_at w r t \<Longrightarrow> settled_at (run h w evs) r t"
  unfolding run_def
  by (induction evs arbitrary: w) (auto intro: apply_event_settled)

lemma dispatch_noop_eq:
  assumes "activeTransition (state w) = None"
    and "committed (state w) = Some c"
    and "c_pathname c = mr_pathname (match h (this_matchers w) path)"
    and "isEqual h (c_query c) (mr_query (match h (this_matchers w) path))"
  shows "dispatch h path w =
           transition \<lparr>o_id = nextId w, o_path = path,
                       o_match = match h (this_matchers w) path, o_noop = True\<rparr>
             (w\<lparr>nextId := nextId w + 1\<rparr>)"
  using assms by (simp add: dispatch_def Let_def)

text \<open>
  C1: when a transition is active and the pathname and query of the new target are equal
  to those of the active transition, \<open>dispatch\<close> returns the reference of that very
  transition, creates no transition and leaves the router as it was.
\<close>

theorem dispatch_same_target_returns_pending:
  assumes "activeTransition (state w) = Some a"
    and "t_pathname (transitions w ! a) = mr_pathname (match h (this_matchers w) path)"
    and "isEqual h (t_query (transitions w ! a)) (mr_query (match h (this_matchers w) path))"
  shows "dispatch h path w = (a, w)"
  using assms by (simp add: dispatch_def Let_def)

theorem dispatch_same_target_returns_pending_witness:
  "activeTransition (state pending_router) = Some 0 \<and>
   dispatch literal_helpers ''/about/'' pending_router = (0, pending_router)"
proof -
  have h1: "activeTransition (state pending_router) = Some 0"
    by (simp add: pending_router_def)
  have m: "this_matchers pending_router = example_matchers"
    by (simp add: pending_router_def)
  have h2: "t_pathname (transitions pending_router ! 0) =
              mr_pathname (match literal_helpers (this_matchers pending_router) ''/about/'')"
    by (simp add: m match_about_slash) (simp add: pending_router_def about_match_def)
  have h3: "isEqual literal_helpers (t_query (transitions pending_router ! 0))
              (mr_query (match literal_helpers (this_matchers pending_router) ''/about/''))"
    by (simp add: m match_about_slash)
       (simp add: pending_router_def about_match_def literal_helpers_def)
  from dispatch_same_target_returns_pending[OF h1 h2 h3] h1 show ?thesis by simp
qed

text \<open>
  C2: when a pending transition is active and the new target differs from it in pathname
  or query, \<open>dispatch\<close> cancels the pending transition with the structured error of type
  \<open>TRANSITION_REDIRECTED\<close> whose \<open>nextPath\<close> is the dispatched path, creates a new pending
  transition for the target and records it in the active-transition slot; no other
  transition and no committed field changes.
\<close>

theorem dispatch_other_target_redirects:
  assumes "activeTransition (state w) = Some a"
    and "a < length (transitions w)"
    and "t_tag (transitions w ! a) = Pending"
    and "\<not> (t_pathname (transitions w ! a) = mr_pathname (match h (this_matchers w) path) \<and>
            isEqual h (t_query (transitions w ! a)) (mr_query (match h (this_matchers w) path)))"
  shows "(let (r, w') = dispatch h path w; m = match h (this_matchers w) path
          in r = length (transitions w) \<and> length (transitions w') = Suc r \<and>
             transitions w' ! a =
               (transitions w ! a)\<lparr>t_tag := Redirected,
                 t_outcome := Some (Structured \<lparr>e_message = TRANSITION_REDIRECTED,
                                                 e_type = TRANSITION_REDIRECTED,
                                                 e_nextPath = Some path\<rparr>)\<rparr> \<and>
             transitions w' ! r =
               \<lparr>t_id = nextId w, t_path = path, t_pathname = mr_pathname m,
                t_params = mr_params m, t_query = mr_query m, t_routes = mr_routes m,
                t_noop = False, t_tag = Pending, t_outcome = None, t_invoked = 0\<rparr> \<and>
             (\<forall>i < length (transitions w). i \<noteq> a \<longrightarrow> transitions w' ! i = transitions w ! i) \<and>
             state w' = \<lparr>committed = committed (state w), activeTransition = Some r\<rparr>)"
  using assms
  by (auto simp: dispatch_def Let_def cancel_def transition_def nth_append)

theorem dispatch_other_target_redirects_witness:
  "activeTransition (state pending_router) = Some 0 \<and>
   t_tag (transitions pending_router ! 0) = Pending \<and>
   fst (dispatch literal_helpers ''/'' pending_router) = 1 \<and>
   t_tag (transitions (snd (dispatch literal_helpers ''/'' pending_router)) ! 0) = Redirected \<and>
   t_outcome (transitions (snd (dispatch literal_helpers ''/'' pending_router)) ! 0) =
     Some (Structured \<lparr>e_message = TRANSITION_REDIRECTED, e_type = TRANSITION_REDIRECTED,
                        e_nextPath = Some ''/''\<rparr>) \<and>
   t_tag (transitions (snd (dispatch literal_helpers ''/'' pending_router)) ! 1) = Pending \<and>
   activeTransition (state (snd (dispatch literal_helpers ''/'' pending_router))) = Some 1"
proof -
  have m: "this_matchers pending_router = example_matchers"
    by (simp add: pending_router_def)
  have h1: "activeTransition (state pending_router) = Some 0"
    by (simp add: pending_router_def)
  have h2: "0 < length (transitions pending_router)"
    by (simp add: pending_router_def)
  have h3: "t_tag (transitions pending_router ! 0) = Pending"
    by (simp add: pending_router_def)
  have h4: "\<not> (t_pathname (transitions pending_router ! 0) =
                mr_pathname (match literal_helpers (this_matchers pending_router) ''/'') \<and>
              isEqual literal_helpers (t_query (transitions pending_router ! 0))
                (mr_query (match literal_helpers (this_matchers pending_router) ''/'')))"
    by (simp add: m match_home) (simp add: pending_router_def)
  have l: "length (transitions pending_router) = 1"
    by (simp add: pending_router_def)
  from dispatch_other_target_redirects[OF h1 h2 h3 h4] h1 h3 l show ?thesis
    by (simp add: Let_def split: prod.splits)
qed

text \<open>
  C3: when no transition is active and the pathname and query of the target are equal to
  those of the committed state, \<open>dispatch\<close> returns a new transition created with the noop
  flag, which carries the routes, params, query and pathname of the match, and which
  never invokes a middleware, whatever happens to the router afterwards.
\<close>

theorem dispatch_committed_target_is_noop:
  assumes "activeTransition (state w) = None"
    and "committed (state w) = Some c"
    and "c_pathname c = mr_pathname (match h (this_matchers w) path)"
    and "isEqual h (c_query c) (mr_query (match h (this_matchers w) path))"
  shows "(let (r, w') = dispatch h path w; t = transitions w' ! r;
              m = match h (this_matchers w) path
          in r = length (transitions w) \<and> length (transitions w') = Suc r \<and>
             t_noop t \<and> t_routes t = mr_routes m \<and> t_params t = mr_params m \<and>
             t_query t = mr_query m \<and> t_pathname t = mr_pathname m \<and>
             t_invoked t = 0 \<and>
             (\<forall>evs. t_invoked (transitions (run h w' evs) ! r) = 0))"
proof -
  obtain r w' where d: "dispatch h path w = (r, w')" by (cases "dispatch h path w")
  with dispatch_noop_eq[OF assms] have
    r: "r = length (transitions w)" and
    ts: "transitions w' = transitions w @ [transitions w' ! r]" and
    t: "transitions w' ! r =
          \<lparr>t_id = nextId w, t_path = path,
           t_pathname = mr_pathname (match h (this_matchers w) path),
           t_params = mr_params (match h (this_matchers w) path),
           t_query = mr_query (match h (this_matchers w) path),
           t_routes = mr_routes (match h (this_matchers w) path),
           t_noop = True, t_tag = Completed, t_outcome = None, t_invoked = 0\<rparr>"
    by (auto simp: transition_def)
  from ts have len: "length (transitions w') = Suc r"
    using r by (metis length_append_singleton)
  have "settled_at w' r (transitions w' ! r)"
    using len t by (simp add: settled_at_def)
  then have "settled_at (run h w' evs) r (transitions w' ! r)" for evs
    by (rule run_settled)
  then have "t_invoked (transitions (run h w' evs) ! r) = 0" for evs
    using t by (simp add: settled_at_def)
  with d r len t show ?thesis by (simp add: Let_def)
qed

theorem dispatch_committed_target_is_noop_witness:
  "activeTransition (state committed_router) = None \<and>
   fst (dispatch literal_helpers ''/about'' committed_router) = 1 \<and>
   t_noop (transitions (snd (dispatch literal_helpers ''/about'' committed_router)) ! 1) \<and>
   t_invoked (transitions
     (run literal_helpers (snd (dispatch literal_helpers ''/about'' committed_router))
        [Step 1 Resolved, Dispatch ''/'', Step 1 Resolved]) ! 1) = 0"
proof -
  let ?c = "\<lparr>c_path = ''/about'', c_pathname = ''/about'', c_params = [],
             c_query = [], c_routes = mr_routes about_match\<rparr>"
  have m: "this_matchers committed_router = example_matchers"
    by (simp add: committed_router_def)
  have h1: "activeTransition (state committed_router) = None"
    by (simp add: committed_router_def)
  have h2: "committed (state committed_router) = Some ?c"
    by (simp add: committed_router_def)
  have h3: "c_pathname ?c =
              mr_pathname (match literal_helpers (this_matchers committed_router) ''/about'')"
    by (simp add: m match_about) (simp add: about_match_def)
  have h4: "isEqual literal_helpers (c_query ?c)
              (mr_query (match literal_helpers (this_matchers committed_router) ''/about''))"
    by (simp add: m match_about) (simp add: about_match_def literal_helpers_def)
  have l: "length (transitions committed_router) = 1"
    by (simp add: committed_router_def)
  from dispatch_committed_target_is_noop[OF h1 h2 h3 h4] h1 l show ?thesis
    by (simp add: Let_def split: prod.splits)
qed

text \<open>
  What \<open>dispatch\<close> does with a match result that has no routes: it returns the active
  transition when that has the pathname and query of the result, and otherwise a new
  transition for the path, with the data of the result.
\<close>

lemma dispatch_unmatched:
  assumes m: "match h (this_matchers w) path =
           \<lparr>mr_routes = [], mr_params = [], mr_pathname = pn, mr_query = q\<rparr>"
    and wf: "wf_router w"
  shows "(let (r, w') = dispatch h path w; t = transitions w' ! r in
           r < length (transitions w') \<and> t_pathname t = pn \<and>
           (if (case activeTransition (state w) of
                  None \<Rightarrow> False
                | Some a \<Rightarrow> t_pathname (transitions w ! a) = pn \<and>
                            isEqual h (t_query (transitions w ! a)) q)
            then w' = w \<and> activeTransition (state w) = Some r
            else r = length (transitions w) \<and> length (transitions w') = Suc r \<and>
                 t_id t = nextId w \<and> t_path t = path \<and> t_params t = [] \<and>
                 t_query t = q \<and> t_routes t = []))"
  using wf
  by (auto simp: dispatch_def m Let_def wf_router_def transition_def cancel_def
      split: option.splits)

text \<open>
  C9, as the code has it: a path that no registered matcher matches still has a match
  result, with no routes and no params. Line 295 trims the whole path, query included
  (trailing slash removed, the empty path replaced by the root path); the pathname of the
  result is that trimmed path without its query and the query is its decoded query, or the
  empty object. \<open>dispatch\<close> on such a path returns a transition of the store with that
  pathname: the active transition, the router unchanged, when that has the same pathname
  and query, and otherwise a new transition for the path that carries the data of the
  result.
\<close>

theorem unmatched_path_still_dispatches:
  assumes "\<forall>m \<in> set (this_matchers w).
             extractParams h (m_path m) (withoutQuery h (trim_path path)) = None"
    and "wf_router w"
  shows "match h (this_matchers w) path =
           \<lparr>mr_routes = [], mr_params = [],
            mr_pathname = withoutQuery h (trim_path path),
            mr_query = (case extractQuery h (trim_path path) of Some q \<Rightarrow> q | None \<Rightarrow> [])\<rparr> \<and>
         trim_path path =
           (if path = [] \<or> path = ''/'' then ''/''
            else if last path = CHR ''/'' then butlast path else path) \<and>
         (let (r, w') = dispatch h path w; t = transitions w' ! r;
              pn = withoutQuery h (trim_path path);
              q = (case extractQuery h (trim_path path) of Some q \<Rightarrow> q | None \<Rightarrow> [])
          in r < length (transitions w') \<and> t_pathname t = pn \<and>
             (if (case activeTransition (state w) of
                    None \<Rightarrow> False
                  | Some a \<Rightarrow> t_pathname (transitions w ! a) = pn \<and>
                              isEqual h (t_query (transitions w ! a)) q)
              then w' = w \<and> activeTransition (state w) = Some r
              else r = length (transitions w) \<and> length (transitions w') = Suc r \<and>
                   t_id t = nextId w \<and> t_path t = path \<and> t_params t = [] \<and>
                   t_query t = q \<and> t_routes t = []))"
proof (intro conjI)
  show "match h (this_matchers w) path =
           \<lparr>mr_routes = [], mr_params = [],
            mr_pathname = withoutQuery h (trim_path path),
            mr_query = (case extractQuery h (trim_path path) of Some q \<Rightarrow> q | None \<Rightarrow> [])\<rparr>"
    by (rule match_no_hit[OF assms(1)])
  show "trim_path path =
           (if path = [] \<or> path = ''/'' then ''/''
            else if last path = CHR ''/'' then butlast path else path)"
    by (rule trim_path_cases)
  from dispatch_unmatched[OF match_no_hit[OF assms(1)] assms(2)]
  show "(let (r, w') = dispatch h path w; t = transitions w' ! r;
              pn = withoutQuery h (trim_path path);
              q = (case extractQuery h (trim_path path) of Some q \<Rightarrow> q | None \<Rightarrow> [])
          in r < length (transitions w') \<and> t_pathname t = pn \<and>
             (if (case activeTransition (state w) of
                    None \<Rightarrow> False
                  | Some a \<Rightarrow> t_pathname (transitions w ! a) = pn \<and>
                              isEqual h (t_query (transitions w ! a)) q)
              then w' = w \<and> activeTransition (state w) = Some r
              else r = length (transitions w) \<and> length (transitions w') = Suc r \<and>
                   t_id t = nextId w \<and> t_path t = path \<and> t_params t = [] \<and>
                   t_query t = q \<and> t_routes t = []))"
    by (simp only: Let_def)
qed

theorem unmatched_path_still_dispatches_witness:
  "wf_router pending_router \<and>
   match literal_helpers (this_matchers pending_router) ''/nowhere/'' =
     \<lparr>mr_routes = [], mr_params = [], mr_pathname = ''/nowhere'', mr_query = []\<rparr> \<and>
   fst (dispatch literal_helpers ''/nowhere/'' pending_router) = 1 \<and>
   t_path (transitions (snd (dispatch literal_helpers ''/nowhere/'' pending_router)) ! 1) =
     ''/nowhere/'' \<and>
   t_pathname (transitions (snd (dispatch literal_helpers ''/nowhere/'' pending_router)) ! 1) =
     ''/nowhere'' \<and>
   t_routes (transitions (snd (dispatch literal_helpers ''/nowhere/'' pending_router)) ! 1) = []"
proof -
  have t: "trim_path ''/nowhere/'' = ''/nowhere''"
    by (simp add: trim_path_def strip_trailing_slash_def Let_def)
  have h1: "\<forall>m \<in> set (this_matchers pending_router).
      extractParams literal_helpers (m_path m)
        (withoutQuery literal_helpers (trim_path ''/nowhere/'')) = None"
    by (simp add: t) (simp add: pending_router_def example_matchers_def literal_helpers_def)
  have h2: "wf_router pending_router"
    by (simp add: wf_router_def pending_router_def)
  have a: "activeTransition (state pending_router) = Some 0"
    "t_pathname (transitions pending_router ! 0) = ''/about''"
    "length (transitions pending_router) = 1"
    by (simp_all add: pending_router_def)
  have w: "withoutQuery literal_helpers ''/nowhere'' = ''/nowhere''"
    "extractQuery literal_helpers ''/nowhere'' = None"
    by (simp_all add: literal_helpers_def)
  from unmatched_path_still_dispatches[OF h1 h2] h2 show ?thesis
    by (simp add: t w a Let_def split: prod.splits)
qed

text \<open>
  The pathname itself is not trimmed: a slash before the query stays, and a path that is
  only a query has the empty pathname.
\<close>

theorem unmatched_pathname_not_trimmed_counterexample:
  "list_all (\<lambda>m. extractParams literal_helpers (m_path m)
                    (withoutQuery literal_helpers (trim_path ''/nowhere/?x=1'')) = None)
     example_matchers \<and>
   mr_routes (match literal_helpers example_matchers ''/nowhere/?x=1'') = [] \<and>
   mr_pathname (match literal_helpers example_matchers ''/nowhere/?x=1'') = ''/nowhere/'' \<and>
   trim_path ''/nowhere/'' \<noteq> ''/nowhere/'' \<and>
   mr_pathname (match literal_helpers example_matchers ''?x=1'') = ''''"
  by (simp add: match_def literal_helpers_def example_matchers_def trim_path_def
      strip_trailing_slash_def Let_def)

text \<open>
  C10: a dispatch that yields a no-op transition leaves the state of the router as it
  was: the active-transition slot stays empty and the committed fields are unchanged, as
  are the middleware and the matchers.
\<close>

theorem noop_dispatch_leaves_state:
  assumes "activeTransition (state w) = None"
    and "committed (state w) = Some c"
    and "c_pathname c = mr_pathname (match h (this_matchers w) path)"
    and "isEqual h (c_query c) (mr_query (match h (this_matchers w) path))"
  shows "state (snd (dispatch h path w)) = state w \<and>
         activeTransition (state (snd (dispatch h path w))) = None \<and>
         committed (state (snd (dispatch h path w))) = Some c \<and>
         middleware (snd (dispatch h path w)) = middleware w \<and>
         this_matchers (snd (dispatch h path w)) = this_matchers w \<and>
         t_noop (transitions (snd (dispatch h path w)) ! fst (dispatch h path w))"
  using assms by (simp add: dispatch_noop_eq[OF assms] transition_def)

theorem noop_dispatch_leaves_state_witness:
  "activeTransition (state committed_router) = None \<and>
   state (snd (dispatch literal_helpers ''/about'' committed_router)) = state committed_router"
proof -
  let ?c = "\<lparr>c_path = ''/about'', c_pathname = ''/about'', c_params = [],
             c_query = [], c_routes = mr_routes about_match\<rparr>"
  have m: "this_matchers committed_router = example_matchers"
    by (simp add: committed_router_def)
  have h1: "activeTransition (state committed_router) = None"
    by (simp add: committed_router_def)
  have h2: "committed (state committed_router) = Some ?c"
    by (simp add: committed_router_def)
  have h3: "c_pathname ?c =
              mr_pathname (match literal_helpers (this_matchers committed_router) ''/about'')"
    by (simp add: m match_about) (simp add: about_match_def)
  have h4: "isEqual literal_helpers (c_query ?c)
              (mr_query (match literal_helpers (this_matchers committed_router) ''/about''))"
    by (simp add: m match_about) (simp add: about_match_def literal_helpers_def)
  from noop_dispatch_leaves_state[OF h1 h2 h3 h4] h1 show ?thesis by simp
qed

end
